theory Spec2Isabelle
  imports Main "HOL-Library.Word" "HOL-Library.Log_Nat" "HOL-Library.Signed_Division"
    "HOL-Library.Multiset"
begin

section \<open>Go values used by the scanner\<close>

subsection \<open>float64\<close>

text \<open>
  A \<open>float64\<close> is an IEEE-754 double: a finite value, an infinity or NaN.  A finite double
  is a rational \<open>m * 2 ^ e\<close> with \<open>\<bar>m\<bar> < 2 ^ 53\<close> and \<open>- 1074 \<le> e \<le> 971\<close>; \<open>Finite\<close>
  carries the value, and what is proved for every rational holds for every double.  The
  sign of zero is not kept: the scanner only multiplies and compares, and \<open>-0 = +0\<close> under
  \<open>>=\<close>.  Arithmetic is the exact result rounded to the nearest double, ties to even, as
  Go specifies.
\<close>

datatype float64 = Finite rat | PosInf | NegInf | NaN

definition pow2 :: "int \<Rightarrow> rat" where
  "pow2 e = (if 0 \<le> e then 2 ^ nat e else 1 / 2 ^ nat (- e))"

text \<open>\<open>ilog2 q\<close> is \<open>\<lfloor>log\<^sub>2 q\<rfloor>\<close> for a positive rational \<open>q\<close>.\<close>

definition ilog2 :: "rat \<Rightarrow> int" where
  "ilog2 q = (case quotient_of q of (a, b) \<Rightarrow>
     (let k = bitlen a - bitlen b in if pow2 k \<le> q then k else k - 1))"

definition round_half_even :: "rat \<Rightarrow> int" where
  "round_half_even x =
     (let f = \<lfloor>x\<rfloor>; d = x - of_int f
      in if d < 1 / 2 then f else if 1 / 2 < d then f + 1
         else if even f then f else f + 1)"

text \<open>
  Rounding to the 53-bit significand: the exponent of the last place is \<open>ilog2 \<bar>q\<bar> - 52\<close>,
  not below \<open>- 1074\<close> (subnormal numbers); a rounded magnitude of \<open>2 ^ 1024\<close> or more
  overflows to an infinity.
\<close>

definition round64 :: "rat \<Rightarrow> float64" where
  "round64 q =
     (if q = 0 then Finite 0
      else
        let e = max (ilog2 \<bar>q\<bar> - 52) (- 1074);
            m = round_half_even (\<bar>q\<bar> / pow2 e);
            v = of_int m * pow2 e
        in if pow2 1024 \<le> v then (if 0 < q then PosInf else NegInf)
           else Finite (sgn q * v))"

fun fmul :: "float64 \<Rightarrow> float64 \<Rightarrow> float64" where
  "fmul NaN y = NaN"
| "fmul x NaN = NaN"
| "fmul (Finite a) (Finite b) = round64 (a * b)"
| "fmul (Finite a) PosInf = (if a = 0 then NaN else if 0 < a then PosInf else NegInf)"
| "fmul (Finite a) NegInf = (if a = 0 then NaN else if 0 < a then NegInf else PosInf)"
| "fmul PosInf (Finite b) = (if b = 0 then NaN else if 0 < b then PosInf else NegInf)"
| "fmul NegInf (Finite b) = (if b = 0 then NaN else if 0 < b then NegInf else PosInf)"
| "fmul PosInf PosInf = PosInf"
| "fmul PosInf NegInf = NegInf"
| "fmul NegInf PosInf = NegInf"
| "fmul NegInf NegInf = PosInf"

text \<open>Go's \<open>x >= y\<close> on float64: false as soon as one side is NaN.\<close>

fun fge :: "float64 \<Rightarrow> float64 \<Rightarrow> bool" where
  "fge NaN y = False"
| "fge x NaN = False"
| "fge (Finite a) (Finite b) = (b \<le> a)"
| "fge PosInf y = True"
| "fge x NegInf = True"
| "fge (Finite a) PosInf = False"
| "fge NegInf y = False"

subsection \<open>int\<close>

text \<open>
  Go's \<open>int\<close> on a 64-bit platform: a 64-bit two's complement word.  \<open>*\<close> wraps around,
  \<open>/\<close> truncates towards zero, \<open><\<close> and \<open>>\<close> compare the signed values.
\<close>

type_synonym go_int = "64 word"

definition int_div :: "go_int \<Rightarrow> go_int \<Rightarrow> go_int" where
  "int_div a b = word_of_int (sint a sdiv sint b)"

definition int_less :: "go_int \<Rightarrow> go_int \<Rightarrow> bool" where
  "int_less a b = (sint a < sint b)"

definition int_len :: "'a list \<Rightarrow> go_int" where
  "int_len xs = word_of_nat (length xs)"

subsection \<open>RequestResult\<close>

record RequestResult =
  Success :: bool
  URL :: string
  ResponseTime :: float64
  ErrorMsg :: string
  Body :: string
  BodySize :: go_int
  IsSQLi :: bool
  SQLiType :: string
  BaselineTime :: float64
  BaselineSize :: go_int

section \<open>Case-insensitive signatures\<close>

text \<open>
  The eight signatures of \<open>sqlErrorPatterns\<close> are literal texts under the flag \<open>(?i)\<close>;
  none contains a regular-expression operator, so each pattern is kept as its text and
  \<open>MatchString\<close> below is the search for that text, letters in either case.
\<close>

definition sqlErrorPatterns :: "string list" where
  "sqlErrorPatterns =
     [''mysql_fetch'', ''sql syntax'', ''mysql error'', ''unclosed quotation'',
      ''unknown column'', ''sql server'', ''sqlite3'', ''postgres'']"

definition asciiLower :: "char \<Rightarrow> char" where
  "asciiLower c =
     (let n = (of_char c :: nat) in if 65 \<le> n \<and> n \<le> 90 then char_of (n + 32) else c)"

text \<open>
  \<open>matchRune c s\<close> consumes from the bytes \<open>s\<close> one code point that is equal to the
  ASCII pattern character \<open>c\<close> under Unicode simple case folding, and returns the rest.
  Besides the other ASCII case of a letter, folding relates \<open>s\<close> to U+017F (bytes C5 BF)
  and \<open>k\<close> to U+212A (bytes E2 84 AA).
\<close>

fun matchRune :: "char \<Rightarrow> string \<Rightarrow> string option" where
  "matchRune c [] = None"
| "matchRune c (b # bs) =
     (if asciiLower b = asciiLower c then Some bs
      else if asciiLower c = CHR ''s'' \<and> b = CHR 0xC5 \<and> take 1 bs = [CHR 0xBF]
        then Some (drop 1 bs)
      else if asciiLower c = CHR ''k'' \<and> b = CHR 0xE2 \<and> take 2 bs = [CHR 0x84, CHR 0xAA]
        then Some (drop 2 bs)
      else None)"

fun matchHere :: "string \<Rightarrow> string \<Rightarrow> bool" where
  "matchHere [] s = True"
| "matchHere (c # cs) s =
     (case matchRune c s of None \<Rightarrow> False | Some s' \<Rightarrow> matchHere cs s')"

text \<open>\<open>MatchString\<close>: the pattern is not anchored, so it is tried at every position.\<close>

fun MatchString :: "string \<Rightarrow> string \<Rightarrow> bool" where
  "MatchString pat [] = matchHere pat []"
| "MatchString pat (b # bs) = (matchHere pat (b # bs) \<or> MatchString pat bs)"

text \<open>The loop over the patterns, leaving at the first one that matches.\<close>

fun matchesAny :: "string list \<Rightarrow> string \<Rightarrow> bool" where
  "matchesAny [] body = False"
| "matchesAny (pattern # rest) body =
     (if MatchString pattern body then True else matchesAny rest body)"

section \<open>The classifier\<close>

definition analyzeSQLi :: "RequestResult \<Rightarrow> float64 \<Rightarrow> go_int \<Rightarrow> RequestResult" where
  "analyzeSQLi result baselineTime baselineSize =
     (let timeThreshold = fmul baselineTime (Finite 3) in
      if fge (ResponseTime result) timeThreshold \<and> fge (ResponseTime result) (Finite 5)
      then result\<lparr>IsSQLi := True, SQLiType := ''time-based''\<rparr>
      else if matchesAny sqlErrorPatterns (Body result)
      then result\<lparr>IsSQLi := True, SQLiType := ''error-based''\<rparr>
      else if int_less 0 baselineSize \<and>
              (int_less (BodySize result) (int_div baselineSize 2) \<or>
               int_less (baselineSize * 2) (BodySize result))
      then result\<lparr>IsSQLi := True, SQLiType := ''anomaly-based''\<rparr>
      else result\<lparr>SQLiType := ''none''\<rparr>)"

section \<open>The prober\<close>

text \<open>
  The network is a parameter: a \<open>client\<close> maps the request URL, the Cookie header (absent
  when the cookie is empty) and the timeout to what the GET did, with the seconds elapsed.
  The four outcomes are the four \<open>return\<close>s of \<open>performRequest\<close>.
\<close>

datatype outcome =
    NewRequestFailed string float64
  | DoFailed string float64
  | ReadFailed string float64
  | Responded string float64

type_synonym client = "string \<Rightarrow> string option \<Rightarrow> int \<Rightarrow> outcome"

definition emptyResult :: RequestResult where
  "emptyResult =
     \<lparr>Success = False, URL = [], ResponseTime = Finite 0, ErrorMsg = [], Body = [],
      BodySize = 0, IsSQLi = False, SQLiType = [], BaselineTime = Finite 0, BaselineSize = 0\<rparr>"

text \<open>The Cookie header is added only for a non-empty cookie.\<close>

definition cookieHeader :: "string \<Rightarrow> string option" where
  "cookieHeader cookie = (if cookie \<noteq> [] then Some cookie else None)"

definition performRequest :: "client \<Rightarrow> string \<Rightarrow> string \<Rightarrow> string \<Rightarrow> int \<Rightarrow> RequestResult" where
  "performRequest http url payload cookie timeout =
     (let urlWithPayload = url @ payload
      in case http urlWithPayload (cookieHeader cookie) timeout of
           NewRequestFailed err elapsed \<Rightarrow>
             emptyResult\<lparr>Success := False, URL := urlWithPayload,
               ResponseTime := elapsed, ErrorMsg := err\<rparr>
         | DoFailed err responseTime \<Rightarrow>
             emptyResult\<lparr>Success := False, URL := urlWithPayload,
               ResponseTime := responseTime, ErrorMsg := err\<rparr>
         | ReadFailed err responseTime \<Rightarrow>
             emptyResult\<lparr>Success := False, URL := urlWithPayload,
               ResponseTime := responseTime, ErrorMsg := err\<rparr>
         | Responded body responseTime \<Rightarrow>
             emptyResult\<lparr>Success := True, URL := urlWithPayload,
               ResponseTime := responseTime, Body := body, BodySize := int_len body\<rparr>)"

definition getBaseline :: "client \<Rightarrow> string \<Rightarrow> string \<Rightarrow> int \<Rightarrow> string + float64 \<times> go_int" where
  "getBaseline http url cookie timeout =
     (let result = performRequest http url [] cookie timeout
      in if \<not> Success result then Inl (''baseline request failed: '' @ ErrorMsg result)
         else Inr (ResponseTime result, BodySize result))"

section \<open>The dispatcher\<close>

text \<open>\<open>15 * time.Second\<close>, in nanoseconds.\<close>

definition requestTimeout :: int where
  "requestTimeout = 15 * 1000000000"

text \<open>A task is the argument list \<open>(u, p, bt, bs)\<close> of one goroutine of \<open>main\<close>.\<close>

type_synonym task = "string \<times> string \<times> float64 \<times> go_int"

text \<open>
  Where a goroutine stands: before \<open>semaphore <- struct{}{}\<close>, before
  \<open>results <- result\<close>, before \<open><-semaphore\<close>, or returned (\<open>wg.Done\<close> has run).
\<close>

datatype pc = Waiting | Holding | Sent | Done

record config =
  http :: client
  cookie :: string
  payloads :: "string list"
  resultsCap :: nat
  semaphoreCap :: nat
  threads :: int

record state =
  todo :: "string list"
  workers :: "(pc \<times> task) list"
  semaphore :: nat
  results :: "RequestResult list"
  isClosed :: bool
  delivered :: "RequestResult list"

datatype panic = MakechanSizeOutOfRange

text \<open>
  Lines 219 to 224 of \<open>main\<close>: both channels are made, the semaphore with the capacity
  \<open>*threads\<close> has at that moment (\<open>make\<close> panics on a negative size), and only then is
  \<open>*threads\<close> set to 5 when it is out of range.  The lists are as long as memory allows,
  so the product of their lengths is taken without wrap-around.
\<close>

definition startScan ::
  "client \<Rightarrow> string \<Rightarrow> int \<Rightarrow> string list \<Rightarrow> string list \<Rightarrow> panic + config \<times> state" where
  "startScan cl ck nthreads urls pls =
     (if nthreads < 0 then Inl MakechanSizeOutOfRange
      else Inr
        (\<lparr>http = cl, cookie = ck, payloads = pls,
          resultsCap = length urls * length pls,
          semaphoreCap = nat nthreads,
          threads = (if nthreads < 1 \<or> 20 < nthreads then 5 else nthreads)\<rparr>,
         \<lparr>todo = urls, workers = [], semaphore = 0, results = [], isClosed = False,
          delivered = []\<rparr>))"

text \<open>The body of a goroutine between taking and giving back its slot.\<close>

definition worker :: "config \<Rightarrow> task \<Rightarrow> RequestResult" where
  "worker cfg t =
     (case t of (u, p, bt, bs) \<Rightarrow>
        (let result = performRequest (http cfg) u p (cookie cfg) requestTimeout;
             result = result\<lparr>BaselineTime := bt, BaselineSize := bs\<rparr>
         in analyzeSQLi result bt bs))"

text \<open>
  The goroutines run interleaved; a schedule is the list of the atomic actions taken.
  \<^item> \<open>NextURL\<close>: one iteration of the loop over \<open>urls\<close> (baseline, then \<open>go\<close> per payload);
  \<^item> \<open>Acquire i\<close>, \<open>Send i\<close>, \<open>Release i\<close>: the three channel operations of goroutine \<open>i\<close>;
  \<^item> \<open>Handoff i j\<close>: on a semaphore without buffer, the send of \<open>i\<close> meets the receive of \<open>j\<close>;
  \<^item> \<open>Close\<close>: \<open>wg.Wait()\<close> returns and \<open>results\<close> is closed;
  \<^item> \<open>Receive\<close>: one iteration of \<open>for result := range results\<close>.
\<close>

datatype action =
  NextURL | Acquire nat | Handoff nat nat | Send nat | Release nat | Close | Receive

definition setPc :: "nat \<Rightarrow> pc \<Rightarrow> (pc \<times> task) list \<Rightarrow> (pc \<times> task) list" where
  "setPc i c ws = ws[i := (c, snd (ws ! i))]"

definition atPc :: "state \<Rightarrow> nat \<Rightarrow> pc \<Rightarrow> bool" where
  "atPc s i c = (i < length (workers s) \<and> fst (workers s ! i) = c)"

fun fire :: "config \<Rightarrow> action \<Rightarrow> state \<Rightarrow> state option" where
  "fire cfg NextURL s =
     (case todo s of
        [] \<Rightarrow> None
      | url # rest \<Rightarrow>
          (case getBaseline (http cfg) url (cookie cfg) requestTimeout of
             Inl err \<Rightarrow> Some (s\<lparr>todo := rest\<rparr>)
           | Inr (baselineTime, baselineSize) \<Rightarrow>
               Some (s\<lparr>todo := rest,
                 workers := workers s @
                   map (\<lambda>payload. (Waiting, (url, payload, baselineTime, baselineSize)))
                     (payloads cfg)\<rparr>)))"
| "fire cfg (Acquire i) s =
     (if atPc s i Waiting \<and> semaphore s < semaphoreCap cfg
      then Some (s\<lparr>workers := setPc i Holding (workers s), semaphore := semaphore s + 1\<rparr>)
      else None)"
| "fire cfg (Handoff i j) s =
     (if semaphoreCap cfg = 0 \<and> atPc s i Waiting \<and> atPc s j Sent
      then Some (s\<lparr>workers := setPc j Done (setPc i Holding (workers s))\<rparr>)
      else None)"
| "fire cfg (Send i) s =
     (if atPc s i Holding \<and> length (results s) < resultsCap cfg
      then Some (s\<lparr>workers := setPc i Sent (workers s),
             results := results s @ [worker cfg (snd (workers s ! i))]\<rparr>)
      else None)"
| "fire cfg (Release i) s =
     (if atPc s i Sent \<and> 0 < semaphore s
      then Some (s\<lparr>workers := setPc i Done (workers s), semaphore := semaphore s - 1\<rparr>)
      else None)"
| "fire cfg Close s =
     (if todo s = [] \<and> \<not> isClosed s \<and> list_all (\<lambda>w. fst w = Done) (workers s)
      then Some (s\<lparr>isClosed := True\<rparr>)
      else None)"
| "fire cfg Receive s =
     (if todo s = [] then
        (case results s of
           [] \<Rightarrow> None
         | r # rest \<Rightarrow> Some (s\<lparr>results := rest, delivered := delivered s @ [r]\<rparr>))
      else None)"

fun run :: "config \<Rightarrow> action list \<Rightarrow> state \<Rightarrow> state option" where
  "run cfg [] s = Some s"
| "run cfg (a # sched) s =
     (case fire cfg a s of None \<Rightarrow> None | Some s' \<Rightarrow> run cfg sched s')"

text \<open>\<open>main\<close> leaves the loop over \<open>results\<close> when the channel is closed and drained.\<close>

definition finished :: "state \<Rightarrow> bool" where
  "finished s = (todo s = [] \<and> isClosed s \<and> results s = [])"

text \<open>The goroutines the loop over \<open>urls\<close> starts, in the order of their \<open>go\<close> statements.\<close>

fun spawned :: "config \<Rightarrow> string list \<Rightarrow> task list" where
  "spawned cfg [] = []"
| "spawned cfg (url # rest) =
     (case getBaseline (http cfg) url (cookie cfg) requestTimeout of
        Inl err \<Rightarrow> spawned cfg rest
      | Inr (baselineTime, baselineSize) \<Rightarrow>
          map (\<lambda>payload. (url, payload, baselineTime, baselineSize)) (payloads cfg) @
          spawned cfg rest)"

text \<open>The targets whose baseline request succeeds.\<close>

definition baselineOk :: "client \<Rightarrow> string \<Rightarrow> string \<Rightarrow> bool" where
  "baselineOk cl ck url =
     (case getBaseline cl url ck requestTimeout of
        Inl err \<Rightarrow> False
      | Inr b \<Rightarrow> True)"

text \<open>A client whose every request runs into the timeout, and a configuration with it.\<close>

definition stalledClient :: client where
  "stalledClient url header timeout = DoFailed ''context deadline exceeded'' (Finite 15)"

definition stalledConfig :: config where
  "stalledConfig =
     \<lparr>http = stalledClient, cookie = [], payloads = [''%27''], resultsCap = 1,
      semaphoreCap = 5, threads = 5\<rparr>"

section \<open>Invariant and measure of the dispatcher\<close>

text \<open>
  What is left to do: every action of a schedule lowers \<open>potential\<close>, so no schedule is
  longer than the potential of its first state.
\<close>

fun rank :: "pc \<Rightarrow> nat" where
  "rank Waiting = 4"
| "rank Holding = 3"
| "rank Sent = 1"
| "rank Done = 0"

definition potential :: "config \<Rightarrow> state \<Rightarrow> nat" where
  "potential cfg s =
     (4 * length (payloads cfg) + 1) * length (todo s) +
     sum_list (map (\<lambda>w. rank (fst w)) (workers s)) +
     length (results s) + (if isClosed s then 0 else 1)"

text \<open>
  \<open>scanInv\<close> relates a state of the scan of \<open>urls\<close> to the loop that started it: the
  goroutines are those of the targets visited so far, the semaphore holds one token per
  goroutine between its send and its receive on it, and the results sent are those of the
  goroutines past \<open>results <- result\<close>.
\<close>

definition slotHeld :: "pc \<times> task \<Rightarrow> bool" where
  "slotHeld w = (fst w = Holding \<or> fst w = Sent)"

definition hasSent :: "pc \<times> task \<Rightarrow> bool" where
  "hasSent w = (fst w = Sent \<or> fst w = Done)"

definition scanInv :: "config \<Rightarrow> string list \<Rightarrow> state \<Rightarrow> bool" where
  "scanInv cfg urls s =
     ((\<exists>visited. urls = visited @ todo s \<and> map snd (workers s) = spawned cfg visited) \<and>
      semaphore s = length (filter slotHeld (workers s)) \<and>
      mset (results s) + mset (delivered s) =
        mset (map (\<lambda>w. worker cfg (snd w)) (filter hasSent (workers s))) \<and>
      (isClosed s \<longrightarrow> todo s = [] \<and> list_all (\<lambda>w. fst w = Done) (workers s)))"

text \<open>
  A client that refuses one target and answers every other request, and the scan of that
  target and one more with a single payload.
\<close>

definition partialClient :: client where
  "partialClient url header timeout =
     (if url = ''http://down/'' then DoFailed ''connection refused'' (Finite 0)
      else Responded ''<html>ok</html>'' (Finite 1))"

definition demoUrls :: "string list" where
  "demoUrls = [''http://down/'', ''http://up/?id='']"

definition demoConfig :: "nat \<Rightarrow> int \<Rightarrow> config" where
  "demoConfig c n =
     \<lparr>http = partialClient, cookie = [], payloads = [''1%27''], resultsCap = 2,
      semaphoreCap = c, threads = n\<rparr>"

definition demoStart :: state where
  "demoStart =
     \<lparr>todo = demoUrls, workers = [], semaphore = 0, results = [], isClosed = False,
      delivered = []\<rparr>"

definition demoTask :: task where
  "demoTask = (''http://up/?id='', ''1%27'', Finite 1, 15)"

definition demoSchedule :: "action list" where
  "demoSchedule = [NextURL, NextURL, Acquire 0, Send 0, Release 0, Close, Receive]"

definition demoFinal :: state where
  "demoFinal =
     \<lparr>todo = [], workers = [(Done, demoTask)], semaphore = 0, results = [], isClosed = True,
      delivered = [worker (demoConfig 2 2) demoTask]\<rparr>"

definition demoBlocked :: state where
  "demoBlocked =
     \<lparr>todo = [], workers = [(Waiting, demoTask)], semaphore = 0, results = [], isClosed = False,
      delivered = []\<rparr>"

section \<open>Properties of the classifier\<close>

subsection \<open>Evaluation lemmas\<close>

lemma round64_3: "round64 3 = Finite 3"
  by (simp add: round64_def ilog2_def pow2_def round_half_even_def Let_def compute_bitlen)

lemma round64_6: "round64 6 = Finite 6"
  by (simp add: round64_def ilog2_def pow2_def round_half_even_def Let_def compute_bitlen)

lemma round64_5_9: "round64 (59 / 10) = Finite (6642809450371482 / 2 ^ 50)"
  by code_simp

text \<open>
  The product is rounded.  Three times 0.1 is the double 0.30000000000000004; and for the
  baseline \<open>2 + 3 / 2 ^ 51\<close> the threshold \<open>baselineTime * 3\<close> is \<open>6 + 1 / 2 ^ 48\<close>,
  just below three times the baseline.
\<close>

lemma fmul_tenth_3:
  "fmul (round64 (1 / 10)) (Finite 3) = Finite (5404319552844596 / 2 ^ 54)"
  by code_simp

lemma threshold_is_rounded:
  "fmul (Finite (2 + 3 / 2 ^ 51)) (Finite 3) = Finite (6 + 1 / 2 ^ 48) \<and>
   (6 + 1 / 2 ^ 48 :: rat) < (2 + 3 / 2 ^ 51) * 3"
  by code_simp

lemma lower_signature:
  "map asciiLower ''You have an error in your SQL syntax'' =
     ''you have an error in your sql syntax''"
  by (simp add: asciiLower_def char_of_eq_iff)

lemma lower_sql_syntax: "map asciiLower ''sql syntax'' = ''sql syntax''"
  by (simp add: asciiLower_def char_of_eq_iff)

subsection \<open>The label and the flag, branch by branch\<close>

lemma SQLiType_analyzeSQLi:
  "SQLiType (analyzeSQLi r bt bs) =
     (if fge (ResponseTime r) (fmul bt (Finite 3)) \<and> fge (ResponseTime r) (Finite 5)
        then ''time-based''
      else if matchesAny sqlErrorPatterns (Body r) then ''error-based''
      else if int_less 0 bs \<and>
              (int_less (BodySize r) (int_div bs 2) \<or> int_less (bs * 2) (BodySize r))
        then ''anomaly-based''
      else ''none'')"
  by (auto simp: analyzeSQLi_def Let_def)

lemma IsSQLi_analyzeSQLi:
  "IsSQLi (analyzeSQLi r bt bs) =
     (if fge (ResponseTime r) (fmul bt (Finite 3)) \<and> fge (ResponseTime r) (Finite 5)
        then True
      else if matchesAny sqlErrorPatterns (Body r) then True
      else if int_less 0 bs \<and>
              (int_less (BodySize r) (int_div bs 2) \<or> int_less (bs * 2) (BodySize r))
        then True
      else IsSQLi r)"
  by (auto simp: analyzeSQLi_def Let_def)

lemma one_label: "x \<in> S \<Longrightarrow> \<exists>!l. l \<in> S \<and> x = l"
  by blast

subsection \<open>Signatures\<close>

lemma matchHere_fold:
  "map asciiLower xs = map asciiLower pat \<Longrightarrow> matchHere pat (xs @ rest)"
proof (induction pat arbitrary: xs)
  case Nil
  then show ?case by simp
next
  case (Cons c cs)
  then obtain b bs where xs: "xs = b # bs" by (cases xs) auto
  with Cons.prems have "asciiLower b = asciiLower c" "map asciiLower bs = map asciiLower cs"
    by auto
  with Cons.IH [of bs] show ?case by (simp add: xs)
qed

lemma MatchString_here: "matchHere pat s \<Longrightarrow> MatchString pat s"
  by (cases s) auto

lemma MatchString_append: "matchHere pat s \<Longrightarrow> MatchString pat (pre @ s)"
  by (induction pre) (auto simp: MatchString_here)

lemma matchesAny_iff: "matchesAny pats body \<longleftrightarrow> (\<exists>pat \<in> set pats. MatchString pat body)"
  by (induction pats) auto

lemma sql_syntax_found:
  assumes "map asciiLower mid = map asciiLower ''You have an error in your SQL syntax''"
  shows "MatchString ''sql syntax'' (pre @ mid @ post)"
proof -
  have "map asciiLower (drop 26 mid) = drop 26 (map asciiLower mid)"
    by (simp add: drop_map)
  also have "\<dots> = drop 26 ''you have an error in your sql syntax''"
    by (simp only: assms lower_signature)
  also have "\<dots> = ''sql syntax''"
    by simp
  also have "\<dots> = map asciiLower ''sql syntax''"
    by (simp only: lower_sql_syntax)
  finally have "matchHere ''sql syntax'' (drop 26 mid @ post)"
    by (rule matchHere_fold)
  then have "MatchString ''sql syntax'' ((pre @ take 26 mid) @ drop 26 mid @ post)"
    by (rule MatchString_append)
  moreover have "(pre @ take 26 mid) @ drop 26 mid @ post = pre @ mid @ post"
    by (metis append.assoc append_take_drop_id)
  ultimately show ?thesis by (simp only:)
qed

lemma matchesAny_empty: "\<not> matchesAny sqlErrorPatterns []"
  by (simp add: sqlErrorPatterns_def)

subsection \<open>Signed reading of the size arithmetic\<close>

lemma sint_int_div_2:
  assumes pos: "0 < sint (bs :: go_int)"
  shows "sint (int_div bs 2) = sint bs div 2"
proof -
  have lt: "sint bs < 2 ^ 63" using sint_lt [of bs] by simp
  have "sint bs sdiv 2 = sint bs div 2"
    using pos by (simp add: signed_divide_int_def)
  moreover have "sint (word_of_int (sint bs div 2) :: go_int) = sint bs div 2"
  proof -
    have "sint (word_of_int (sint bs div 2) :: go_int) = signed_take_bit 63 (sint bs div 2)"
      by (simp add: sint_sbintrunc')
    also have "\<dots> = sint bs div 2"
      by (rule signed_take_bit_int_eq_self) (use pos lt in auto)
    finally show ?thesis .
  qed
  ultimately show ?thesis by (simp add: int_div_def)
qed

lemma sint_times_2:
  assumes pos: "0 < sint (bs :: go_int)" and lt: "sint bs < 2 ^ 62"
  shows "sint (bs * 2) = 2 * sint bs"
proof -
  have "bs * 2 = word_of_int (2 * sint bs)"
    by (simp add: mult.commute)
  then have "sint (bs * 2) = signed_take_bit 63 (2 * sint bs)"
    by (simp only: sint_sbintrunc') simp
  also have "\<dots> = 2 * sint bs"
    by (rule signed_take_bit_int_eq_self) (use pos lt in auto)
  finally show ?thesis .
qed

lemma failed_anomaly:
  "int_less 0 bs \<and> (int_less 0 (int_div bs 2) \<or> int_less (bs * 2) 0) \<longleftrightarrow> 2 \<le> sint bs"
proof (cases "0 < sint bs")
  case True
  then have "0 < sint (int_div bs 2) \<longleftrightarrow> 2 \<le> sint bs"
    by (simp add: sint_int_div_2) arith
  moreover have "\<not> sint (bs * 2) < 0" if "sint bs = 1"
  proof -
    from that have "word_of_int (sint bs) = (word_of_int 1 :: go_int)" by simp
    then have "bs = 1" by (simp only: of_int_sint) simp
    then show ?thesis by simp
  qed
  ultimately show ?thesis using True by (auto simp: int_less_def)
next
  case False
  then show ?thesis by (simp add: int_less_def)
qed

subsection \<open>The prober's failure results\<close>

lemma performRequest_failed:
  "\<not> Success (performRequest cl u p ck t) \<Longrightarrow>
     Body (performRequest cl u p ck t) = [] \<and> BodySize (performRequest cl u p ck t) = 0"
  by (cases "cl (u @ p) (cookieHeader ck) t")
    (simp_all add: performRequest_def emptyResult_def Let_def)

lemma Success_performRequest:
  "Success (performRequest cl u p ck t) \<longleftrightarrow>
     (\<exists>body rt. cl (u @ p) (cookieHeader ck) t = Responded body rt)"
  by (cases "cl (u @ p) (cookieHeader ck) t")
    (simp_all add: performRequest_def emptyResult_def Let_def)

section \<open>The claims on the classifier\<close>

text \<open>
  Claim C3.  The label \<open>analyzeSQLi\<close> assigns is one of \<open>time-based\<close>, \<open>error-based\<close>,
  \<open>anomaly-based\<close> and \<open>none\<close>, it is the label of the first rule that holds, in the order
  time, error, anomaly, and a result that meets both the time rule and the error rule is
  labelled \<open>time-based\<close>.
\<close>

theorem classification_priority:
  "(\<exists>!l. l \<in> {''time-based'', ''error-based'', ''anomaly-based'', ''none''} \<and>
      SQLiType (analyzeSQLi r bt bs) = l) \<and>
   SQLiType (analyzeSQLi r bt bs) =
     (if fge (ResponseTime r) (fmul bt (Finite 3)) \<and> fge (ResponseTime r) (Finite 5)
        then ''time-based''
      else if matchesAny sqlErrorPatterns (Body r) then ''error-based''
      else if int_less 0 bs \<and>
              (int_less (BodySize r) (int_div bs 2) \<or> int_less (bs * 2) (BodySize r))
        then ''anomaly-based''
      else ''none'') \<and>
   (fge (ResponseTime r) (fmul bt (Finite 3)) \<and> fge (ResponseTime r) (Finite 5) \<and>
    matchesAny sqlErrorPatterns (Body r) \<longrightarrow>
      SQLiType (analyzeSQLi r bt bs) = ''time-based'')"
proof (intro conjI)
  have "SQLiType (analyzeSQLi r bt bs) \<in> {''time-based'', ''error-based'', ''anomaly-based'', ''none''}"
    by (simp add: SQLiType_analyzeSQLi)
  then show "\<exists>!l. l \<in> {''time-based'', ''error-based'', ''anomaly-based'', ''none''} \<and>
      SQLiType (analyzeSQLi r bt bs) = l"
    by (rule one_label)
qed (simp_all add: SQLiType_analyzeSQLi)

theorem classification_priority_witness:
  "fge (Finite 10) (fmul (Finite 1) (Finite 3)) \<and> fge (Finite 10) (Finite 5) \<and>
   matchesAny sqlErrorPatterns ''SQL syntax'' \<and>
   SQLiType (analyzeSQLi (emptyResult\<lparr>ResponseTime := Finite 10, Body := ''SQL syntax''\<rparr>)
     (Finite 1) 0) = ''time-based''"
proof -
  have h: "fge (Finite 10) (fmul (Finite 1) (Finite 3)) \<and> fge (Finite 10) (Finite 5) \<and>
      matchesAny sqlErrorPatterns ''SQL syntax''"
    by (simp add: round64_3 sqlErrorPatterns_def asciiLower_def char_of_eq_iff)
  show ?thesis
    using h classification_priority
      [of "emptyResult\<lparr>ResponseTime := Finite 10, Body := ''SQL syntax''\<rparr>" "Finite 1" 0]
    by simp
qed

text \<open>
  Claim C5.  The time rule fires exactly when the response time is at least the float64
  product \<open>baselineTime * 3\<close> and at least 5 seconds; where that product is exact, it is
  three times the baseline as a rational number.  With a baseline of 2.0 s and a
  response time of 5.9 s (the double nearest to 5.9; the floor of 5 s is met, the threshold
  6.0 is not) the time rule does not fire, and the result is what the error rule, the anomaly
  rule or the default make of it.
\<close>

theorem time_rule_exact:
  "(SQLiType (analyzeSQLi r bt bs) = ''time-based'' \<longleftrightarrow>
      fge (ResponseTime r) (fmul bt (Finite 3)) \<and> fge (ResponseTime r) (Finite 5)) \<and>
   (ResponseTime r = Finite a \<and> bt = Finite b \<and> round64 (b * 3) = Finite (b * 3) \<longrightarrow>
      (SQLiType (analyzeSQLi r bt bs) = ''time-based'' \<longleftrightarrow> b * 3 \<le> a \<and> 5 \<le> a)) \<and>
   fge (round64 (59 / 10)) (Finite 5) \<and>
   \<not> fge (round64 (59 / 10)) (fmul (Finite 2) (Finite 3)) \<and>
   analyzeSQLi (r\<lparr>ResponseTime := round64 (59 / 10)\<rparr>) (Finite 2) bs =
     (if matchesAny sqlErrorPatterns (Body r)
        then r\<lparr>ResponseTime := round64 (59 / 10), IsSQLi := True, SQLiType := ''error-based''\<rparr>
      else if int_less 0 bs \<and>
              (int_less (BodySize r) (int_div bs 2) \<or> int_less (bs * 2) (BodySize r))
        then r\<lparr>ResponseTime := round64 (59 / 10), IsSQLi := True,
               SQLiType := ''anomaly-based''\<rparr>
      else r\<lparr>ResponseTime := round64 (59 / 10), SQLiType := ''none''\<rparr>)"
proof -
  have a: "SQLiType (analyzeSQLi r bt bs) = ''time-based'' \<longleftrightarrow>
      fge (ResponseTime r) (fmul bt (Finite 3)) \<and> fge (ResponseTime r) (Finite 5)"
    by (simp add: SQLiType_analyzeSQLi)
  have b: "fge (round64 (59 / 10)) (Finite 5)"
    by (simp add: round64_5_9)
  have c: "\<not> fge (round64 (59 / 10)) (fmul (Finite 2) (Finite 3))"
    by (simp add: round64_5_9 round64_6)
  have d: "ResponseTime r = Finite a \<and> bt = Finite b \<and> round64 (b * 3) = Finite (b * 3) \<longrightarrow>
      (SQLiType (analyzeSQLi r bt bs) = ''time-based'' \<longleftrightarrow> b * 3 \<le> a \<and> 5 \<le> a)"
    by (simp add: SQLiType_analyzeSQLi)
  have e: "analyzeSQLi (r\<lparr>ResponseTime := round64 (59 / 10)\<rparr>) (Finite 2) bs =
     (if matchesAny sqlErrorPatterns (Body r)
        then r\<lparr>ResponseTime := round64 (59 / 10), IsSQLi := True, SQLiType := ''error-based''\<rparr>
      else if int_less 0 bs \<and>
              (int_less (BodySize r) (int_div bs 2) \<or> int_less (bs * 2) (BodySize r))
        then r\<lparr>ResponseTime := round64 (59 / 10), IsSQLi := True,
               SQLiType := ''anomaly-based''\<rparr>
      else r\<lparr>ResponseTime := round64 (59 / 10), SQLiType := ''none''\<rparr>)"
    using c by (simp add: analyzeSQLi_def)
  show ?thesis by (intro conjI a b c d e)
qed

theorem time_rule_exact_witness:
  "ResponseTime (emptyResult\<lparr>ResponseTime := Finite 5\<rparr>) = Finite 5 \<and>
   round64 (1 * 3) = Finite (1 * 3) \<and> (1::rat) * 3 \<le> 5 \<and>
   SQLiType (analyzeSQLi (emptyResult\<lparr>ResponseTime := Finite 5\<rparr>) (Finite 1) 0) = ''time-based'' \<and>
   SQLiType (analyzeSQLi (emptyResult\<lparr>ResponseTime := round64 (59 / 10)\<rparr>) (Finite 2) 0) = ''none''"
proof -
  have h: "ResponseTime (emptyResult\<lparr>ResponseTime := Finite 5\<rparr>) = Finite 5 \<and>
      Finite 1 = Finite 1 \<and> round64 (1 * 3) = Finite (1 * 3)"
    by (simp add: round64_3)
  have k: "\<not> matchesAny sqlErrorPatterns (Body emptyResult)"
    by (simp add: emptyResult_def matchesAny_empty)
  from time_rule_exact [of "emptyResult\<lparr>ResponseTime := Finite 5\<rparr>" "Finite 1" 0 5 1] h
  have "SQLiType (analyzeSQLi (emptyResult\<lparr>ResponseTime := Finite 5\<rparr>) (Finite 1) 0) =
      ''time-based''"
    by simp
  moreover from time_rule_exact [of emptyResult "Finite 2" 0] k
  have "SQLiType (analyzeSQLi (emptyResult\<lparr>ResponseTime := round64 (59 / 10)\<rparr>) (Finite 2) 0) =
      ''none''"
    by (simp add: int_less_def)
  ultimately show ?thesis using h by simp
qed

text \<open>
  Claim C6.  For a result that is labelled neither \<open>time-based\<close> nor \<open>error-based\<close>, the
  anomaly rule fires exactly when \<open>baselineSize > 0\<close> and the body size is below
  \<open>baselineSize / 2\<close> or above \<open>baselineSize * 2\<close>, in Go's \<open>int\<close> arithmetic; where the
  doubling does not wrap around, these are the signed integers' half and double.  With a
  baseline size of 1000, a body of 400 bytes is \<open>anomaly-based\<close> and one of 600 bytes is
  \<open>none\<close>; with a baseline size of 0 no result is \<open>anomaly-based\<close>.
\<close>

theorem anomaly_rule_exact:
  assumes "SQLiType (analyzeSQLi r bt bs) \<notin> {''time-based'', ''error-based''}"
  shows "(SQLiType (analyzeSQLi r bt bs) = ''anomaly-based'' \<longleftrightarrow>
            int_less 0 bs \<and>
            (int_less (BodySize r) (int_div bs 2) \<or> int_less (bs * 2) (BodySize r))) \<and>
         (0 < sint bs \<and> sint bs < 2 ^ 62 \<longrightarrow>
            (SQLiType (analyzeSQLi r bt bs) = ''anomaly-based'' \<longleftrightarrow>
               sint (BodySize r) < sint bs div 2 \<or> 2 * sint bs < sint (BodySize r))) \<and>
         SQLiType (analyzeSQLi (r\<lparr>BodySize := 400\<rparr>) bt 1000) = ''anomaly-based'' \<and>
         SQLiType (analyzeSQLi (r\<lparr>BodySize := 600\<rparr>) bt 1000) = ''none'' \<and>
         SQLiType (analyzeSQLi r' bt' 0) \<noteq> ''anomaly-based''"
proof -
  from assms
  have no: "\<not> (fge (ResponseTime r) (fmul bt (Finite 3)) \<and> fge (ResponseTime r) (Finite 5))"
    "\<not> matchesAny sqlErrorPatterns (Body r)"
    by (auto simp: analyzeSQLi_def Let_def split: if_splits)
  have a: "SQLiType (analyzeSQLi r bt bs) = ''anomaly-based'' \<longleftrightarrow>
            int_less 0 bs \<and>
            (int_less (BodySize r) (int_div bs 2) \<or> int_less (bs * 2) (BodySize r))"
    using no by (auto simp: analyzeSQLi_def Let_def)
  have b: "0 < sint bs \<and> sint bs < 2 ^ 62 \<longrightarrow>
            (SQLiType (analyzeSQLi r bt bs) = ''anomaly-based'' \<longleftrightarrow>
               sint (BodySize r) < sint bs div 2 \<or> 2 * sint bs < sint (BodySize r))"
    unfolding a by (auto simp: int_less_def sint_int_div_2 sint_times_2)
  have c: "SQLiType (analyzeSQLi (r\<lparr>BodySize := 400\<rparr>) bt 1000) = ''anomaly-based''"
    using no by (simp add: analyzeSQLi_def Let_def int_less_def int_div_def signed_divide_int_def)
  have d: "SQLiType (analyzeSQLi (r\<lparr>BodySize := 600\<rparr>) bt 1000) = ''none''"
    using no by (simp add: analyzeSQLi_def Let_def int_less_def int_div_def signed_divide_int_def)
  have e: "SQLiType (analyzeSQLi r' bt' 0) \<noteq> ''anomaly-based''"
    by (auto simp: analyzeSQLi_def Let_def int_less_def)
  show ?thesis using a b c d e by blast
qed

theorem anomaly_rule_exact_witness:
  "SQLiType (analyzeSQLi (emptyResult\<lparr>BodySize := 2001\<rparr>) (Finite 1) 1000)
     \<notin> {''time-based'', ''error-based''} \<and>
   0 < sint (1000 :: go_int) \<and> sint (1000 :: go_int) < 2 ^ 62 \<and>
   SQLiType (analyzeSQLi (emptyResult\<lparr>BodySize := 2001\<rparr>) (Finite 1) 1000) = ''anomaly-based'' \<and>
   SQLiType (analyzeSQLi (emptyResult\<lparr>BodySize := 400\<rparr>) (Finite 1) 1000) = ''anomaly-based'' \<and>
   SQLiType (analyzeSQLi (emptyResult\<lparr>BodySize := 600\<rparr>) (Finite 1) 1000) = ''none''"
proof -
  have h: "SQLiType (analyzeSQLi (emptyResult\<lparr>BodySize := 2001\<rparr>) (Finite 1) 1000)
     \<notin> {''time-based'', ''error-based''}"
    by (simp add: SQLiType_analyzeSQLi emptyResult_def round64_3 matchesAny_empty
        int_less_def int_div_def signed_divide_int_def)
  have k: "0 < sint (1000 :: go_int) \<and> sint (1000 :: go_int) < 2 ^ 62"
    by simp
  show ?thesis
    using h k anomaly_rule_exact [OF h] by simp
qed

text \<open>
  Claim C7.  A result that is not labelled \<open>time-based\<close> and whose body contains
  \<open>You have an error in your SQL syntax\<close>, each letter in either case, is labelled
  \<open>error-based\<close>.
\<close>

theorem sql_syntax_signature_any_case:
  assumes "Body r = pre @ mid @ post"
    and "map asciiLower mid = map asciiLower ''You have an error in your SQL syntax''"
    and "SQLiType (analyzeSQLi r bt bs) \<noteq> ''time-based''"
  shows "SQLiType (analyzeSQLi r bt bs) = ''error-based''"
proof -
  have "MatchString ''sql syntax'' (Body r)"
    using assms(1,2) by (simp add: sql_syntax_found)
  then have "matchesAny sqlErrorPatterns (Body r)"
    by (auto simp: matchesAny_iff sqlErrorPatterns_def)
  with assms(3) show ?thesis
    by (auto simp: analyzeSQLi_def Let_def split: if_splits)
qed

theorem sql_syntax_signature_any_case_witness:
  "SQLiType (analyzeSQLi
     (emptyResult\<lparr>Success := True, ResponseTime := Finite 1,
        Body := ''<b>Warning</b>: YOU HAVE AN ERROR IN YOUR SQL SYNTAX; check the manual''\<rparr>)
     (Finite 1) 0) = ''error-based''"
proof -
  let ?r = "emptyResult\<lparr>Success := True, ResponseTime := Finite 1,
        Body := ''<b>Warning</b>: YOU HAVE AN ERROR IN YOUR SQL SYNTAX; check the manual''\<rparr>"
  have h1: "Body ?r = ''<b>Warning</b>: '' @ ''YOU HAVE AN ERROR IN YOUR SQL SYNTAX'' @
      ''; check the manual''"
    by simp
  have h2: "map asciiLower ''YOU HAVE AN ERROR IN YOUR SQL SYNTAX'' =
      map asciiLower ''You have an error in your SQL syntax''"
    by (simp add: asciiLower_def char_of_eq_iff)
  have h3: "SQLiType (analyzeSQLi ?r (Finite 1) 0) \<noteq> ''time-based''"
    by (simp add: SQLiType_analyzeSQLi)
  show ?thesis
    using sql_syntax_signature_any_case [OF h1 h2 h3] .
qed

text \<open>
  Claim C9.  When \<open>IsSQLi\<close> is false in the argument, the result has \<open>IsSQLi\<close> true exactly
  when its label is \<open>time-based\<close>, \<open>error-based\<close> or \<open>anomaly-based\<close>, and false exactly when
  the label is \<open>none\<close>.
\<close>

theorem IsSQLi_iff_label:
  assumes "\<not> IsSQLi r"
  shows "(IsSQLi (analyzeSQLi r bt bs) \<longleftrightarrow>
            SQLiType (analyzeSQLi r bt bs) \<in> {''time-based'', ''error-based'', ''anomaly-based''}) \<and>
         (\<not> IsSQLi (analyzeSQLi r bt bs) \<longleftrightarrow> SQLiType (analyzeSQLi r bt bs) = ''none'')"
  using assms by (simp add: SQLiType_analyzeSQLi IsSQLi_analyzeSQLi)

theorem IsSQLi_iff_label_witness:
  "\<not> IsSQLi emptyResult \<and>
   \<not> IsSQLi (analyzeSQLi emptyResult (Finite 1) 0) \<and>
   SQLiType (analyzeSQLi emptyResult (Finite 1) 0) = ''none''"
proof -
  have h: "\<not> IsSQLi emptyResult" by (simp add: emptyResult_def)
  have "SQLiType (analyzeSQLi emptyResult (Finite 1) 0) = ''none''"
    by (simp add: SQLiType_analyzeSQLi emptyResult_def matchesAny_empty int_less_def)
  then show ?thesis
    using h IsSQLi_iff_label [OF h, of "Finite 1" 0] by simp
qed

text \<open>
  Claim C10.  \<open>analyzeSQLi\<close> changes no field other than \<open>IsSQLi\<close> and \<open>SQLiType\<close>:
  \<open>Success\<close>, \<open>URL\<close>, \<open>ResponseTime\<close>, \<open>ErrorMsg\<close>, \<open>Body\<close>, \<open>BodySize\<close>, \<open>BaselineTime\<close> and
  \<open>BaselineSize\<close> of the result are those of the argument.
\<close>

theorem analyzeSQLi_frame:
  "Success (analyzeSQLi r bt bs) = Success r \<and>
   URL (analyzeSQLi r bt bs) = URL r \<and>
   ResponseTime (analyzeSQLi r bt bs) = ResponseTime r \<and>
   ErrorMsg (analyzeSQLi r bt bs) = ErrorMsg r \<and>
   Body (analyzeSQLi r bt bs) = Body r \<and>
   BodySize (analyzeSQLi r bt bs) = BodySize r \<and>
   BaselineTime (analyzeSQLi r bt bs) = BaselineTime r \<and>
   BaselineSize (analyzeSQLi r bt bs) = BaselineSize r \<and>
   analyzeSQLi r bt bs =
     r\<lparr>IsSQLi := IsSQLi (analyzeSQLi r bt bs), SQLiType := SQLiType (analyzeSQLi r bt bs)\<rparr>"
  by (simp add: analyzeSQLi_def)

text \<open>
  Claim C2.  A probe whose request failed is classified like any other, on its response
  time, its empty body and its body size 0.  The claim that its label is always \<open>none\<close>
  fails: a request that ran into the timeout after 15 s, against a baseline of 1 s, is
  labelled \<open>time-based\<close>.
\<close>

theorem failed_probe_labelled_time_based:
  "\<not> Success (performRequest (http stalledConfig) ''http://t/item?id=1'' ''%27''
       (cookie stalledConfig) requestTimeout) \<and>
   SQLiType (worker stalledConfig (''http://t/item?id=1'', ''%27'', Finite 1, 1000)) \<noteq> ''none'' \<and>
   SQLiType (worker stalledConfig (''http://t/item?id=1'', ''%27'', Finite 1, 1000)) = ''time-based''"
  by (simp add: worker_def performRequest_def stalledConfig_def stalledClient_def
      emptyResult_def SQLiType_analyzeSQLi round64_3)

text \<open>
  Claim C2, as the code has it.  The label of a failed probe is \<open>time-based\<close> when its
  response time is at least three times the baseline's and at least 5 s; otherwise
  \<open>anomaly-based\<close> when the baseline size is 2 or more; otherwise \<open>none\<close>.  It is never
  \<open>error-based\<close>.
\<close>

theorem failed_probe_classification:
  assumes "\<not> Success (performRequest (http cfg) u p (cookie cfg) requestTimeout)"
  shows "SQLiType (worker cfg (u, p, bt, bs)) =
     (if fge (ResponseTime (performRequest (http cfg) u p (cookie cfg) requestTimeout))
             (fmul bt (Finite 3)) \<and>
         fge (ResponseTime (performRequest (http cfg) u p (cookie cfg) requestTimeout)) (Finite 5)
        then ''time-based''
      else if 2 \<le> sint bs then ''anomaly-based''
      else ''none'')"
proof -
  let ?r = "performRequest (http cfg) u p (cookie cfg) requestTimeout"
  from assms have "Body ?r = []" "BodySize ?r = 0"
    using performRequest_failed by blast+
  then show ?thesis
    using failed_anomaly [of bs]
    by (simp add: worker_def Let_def SQLiType_analyzeSQLi matchesAny_empty)
qed

theorem failed_probe_classification_witness:
  "\<not> Success (performRequest (http stalledConfig) ''http://t/item?id=1'' ''%27''
       (cookie stalledConfig) requestTimeout) \<and>
   SQLiType (worker stalledConfig (''http://t/item?id=1'', ''%27'', Finite 6, 1000)) =
     ''anomaly-based'' \<and>
   SQLiType (worker stalledConfig (''http://t/item?id=1'', ''%27'', Finite 6, 1)) = ''none''"
proof -
  have h: "\<not> Success (performRequest (http stalledConfig) ''http://t/item?id=1'' ''%27''
       (cookie stalledConfig) requestTimeout)"
    by (simp add: performRequest_def stalledConfig_def stalledClient_def emptyResult_def)
  have rt: "ResponseTime (performRequest (http stalledConfig) ''http://t/item?id=1'' ''%27''
       (cookie stalledConfig) requestTimeout) = Finite 15"
    by (simp add: performRequest_def stalledConfig_def stalledClient_def emptyResult_def)
  have r18: "round64 18 = Finite 18"
    by (simp add: round64_def ilog2_def pow2_def round_half_even_def Let_def compute_bitlen)
  show ?thesis
    using h failed_probe_classification [OF h, of "Finite 6" 1000]
      failed_probe_classification [OF h, of "Finite 6" 1]
    by (simp add: rt r18)
qed

section \<open>Properties of the dispatcher\<close>

subsection \<open>Updating one goroutine\<close>

lemma setPc_split:
  assumes "i < length ws"
  shows "\<exists>xs ys. ws = xs @ (fst (ws ! i), snd (ws ! i)) # ys \<and>
           setPc i c ws = xs @ (c, snd (ws ! i)) # ys"
proof (intro exI conjI)
  show "ws = take i ws @ (fst (ws ! i), snd (ws ! i)) # drop (Suc i) ws"
    using assms by (simp add: id_take_nth_drop [symmetric])
  show "setPc i c ws = take i ws @ (c, snd (ws ! i)) # drop (Suc i) ws"
    using assms by (simp add: setPc_def upd_conv_take_nth_drop)
qed

lemma atPc_split:
  assumes "atPc s i c"
  obtains xs t ys where "workers s = xs @ (c, t) # ys"
    and "setPc i c' (workers s) = xs @ (c', t) # ys"
    and "snd (workers s ! i) = t"
proof -
  from assms have i: "i < length (workers s)" and c: "fst (workers s ! i) = c"
    by (simp_all add: atPc_def)
  from setPc_split [OF i, of c'] c that show thesis by metis
qed

lemma spawned_append: "spawned cfg (xs @ ys) = spawned cfg xs @ spawned cfg ys"
  by (induction xs) (auto split: sum.splits)

lemma length_spawned:
  "length (spawned cfg urls) =
     length (filter (baselineOk (http cfg) (cookie cfg)) urls) * length (payloads cfg)"
  by (induction urls) (auto simp: baselineOk_def split: sum.splits)

lemma length_spawned_le: "length (spawned cfg urls) \<le> length urls * length (payloads cfg)"
  by (simp add: length_spawned)

lemma fire_potential:
  assumes "fire cfg a s = Some s'"
  shows "potential cfg s' < potential cfg s"
proof (cases a)
  case NextURL
  with assms show ?thesis
    by (auto simp: potential_def comp_def sum_list_triv split: list.splits sum.splits)
next
  case (Acquire i)
  with assms have at: "atPc s i Waiting"
    and s': "s' = s\<lparr>workers := setPc i Holding (workers s), semaphore := semaphore s + 1\<rparr>"
    by (auto split: if_splits)
  from at obtain xs t ys where "workers s = xs @ (Waiting, t) # ys"
    "setPc i Holding (workers s) = xs @ (Holding, t) # ys"
    by (rule atPc_split)
  then show ?thesis by (simp add: s' potential_def)
next
  case (Handoff i j)
  define ws1 where "ws1 = setPc i Holding (workers s)"
  from Handoff assms have at: "atPc s i Waiting" "atPc s j Sent"
    and s': "s' = s\<lparr>workers := setPc j Done ws1\<rparr>"
    by (auto simp: ws1_def split: if_splits)
  from at(1) obtain xs t ys where w: "workers s = xs @ (Waiting, t) # ys"
    "ws1 = xs @ (Holding, t) # ys"
    unfolding ws1_def by (rule atPc_split)
  from at have "i \<noteq> j" by (auto simp: atPc_def)
  with at(2) have "atPc (s\<lparr>workers := ws1\<rparr>) j Sent"
    by (simp add: atPc_def setPc_def ws1_def)
  then obtain xs' t' ys' where w': "ws1 = xs' @ (Sent, t') # ys'"
    "setPc j Done ws1 = xs' @ (Done, t') # ys'"
    by (rule atPc_split [where c' = Done]) auto
  have "sum_list (map (\<lambda>w. rank (fst w)) (setPc j Done ws1))
      < sum_list (map (\<lambda>w. rank (fst w)) ws1)"
    unfolding w'(2) by (simp add: w'(1))
  also have "\<dots> < sum_list (map (\<lambda>w. rank (fst w)) (workers s))"
    by (simp add: w)
  finally show ?thesis by (simp add: s' potential_def)
next
  case (Send i)
  with assms have at: "atPc s i Holding"
    and s': "s' = s\<lparr>workers := setPc i Sent (workers s),
             results := results s @ [worker cfg (snd (workers s ! i))]\<rparr>"
    by (auto split: if_splits)
  from at obtain xs t ys where "workers s = xs @ (Holding, t) # ys"
    "setPc i Sent (workers s) = xs @ (Sent, t) # ys"
    by (rule atPc_split)
  then show ?thesis by (simp add: s' potential_def)
next
  case (Release i)
  with assms have at: "atPc s i Sent"
    and s': "s' = s\<lparr>workers := setPc i Done (workers s), semaphore := semaphore s - 1\<rparr>"
    by (auto split: if_splits)
  from at obtain xs t ys where "workers s = xs @ (Sent, t) # ys"
    "setPc i Done (workers s) = xs @ (Done, t) # ys"
    by (rule atPc_split)
  then show ?thesis by (simp add: s' potential_def)
next
  case Close
  with assms show ?thesis
    by (auto simp: potential_def split: if_splits)
next
  case Receive
  with assms show ?thesis
    by (auto simp: potential_def split: if_splits list.splits)
qed

lemma run_potential:
  "run cfg sched s = Some s' \<Longrightarrow> potential cfg s' + length sched \<le> potential cfg s"
proof (induction sched arbitrary: s)
  case Nil
  then show ?case by simp
next
  case (Cons a sched)
  then obtain s1 where f: "fire cfg a s = Some s1" and r: "run cfg sched s1 = Some s'"
    by (auto split: option.splits)
  from fire_potential [OF f] Cons.IH [OF r] show ?case by simp
qed


lemma scanInv_closed_workers:
  assumes "scanInv cfg urls s" and "workers s = xs @ (c, t) # ys" and "c \<noteq> Done"
  shows "\<not> isClosed s"
  using assms by (auto simp: scanInv_def)

lemma fire_scanInv:
  assumes i: "scanInv cfg urls s" and f: "fire cfg a s = Some s'"
  shows "scanInv cfg urls s'"
proof (cases a)
  case NextURL
  from f NextURL obtain url rest where t: "todo s = url # rest"
    by (auto split: list.splits)
  from i obtain visited where v: "urls = visited @ todo s"
    "map snd (workers s) = spawned cfg visited"
    by (auto simp: scanInv_def)
  from i t have nc: "\<not> isClosed s" by (auto simp: scanInv_def)
  have u: "urls = (visited @ [url]) @ rest" by (simp add: v t)
  show ?thesis
  proof (cases "getBaseline (http cfg) url (cookie cfg) requestTimeout")
    case (Inl err)
    with f NextURL t have s': "s' = s\<lparr>todo := rest\<rparr>" by simp
    have "map snd (workers s) = spawned cfg (visited @ [url])"
      by (simp add: spawned_append v Inl)
    with u i nc show ?thesis unfolding scanInv_def s' by auto
  next
    case (Inr b)
    obtain bt bs where b: "b = (bt, bs)" by (cases b)
    let ?new = "map (\<lambda>payload. (Waiting, (url, payload, bt, bs))) (payloads cfg)"
    from f NextURL t Inr b have s': "s' = s\<lparr>todo := rest, workers := workers s @ ?new\<rparr>"
      by simp
    have m: "map snd (workers s @ ?new) = spawned cfg (visited @ [url])"
      by (simp add: spawned_append v Inr b comp_def)
    have n: "filter slotHeld ?new = []" "filter hasSent ?new = []"
      by (simp_all add: filter_empty_conv slotHeld_def hasSent_def)
    from u m n i nc show ?thesis unfolding scanInv_def s' by auto
  qed
next
  case (Acquire k)
  with f have at: "atPc s k Waiting"
    and s': "s' = s\<lparr>workers := setPc k Holding (workers s), semaphore := semaphore s + 1\<rparr>"
    by (auto split: if_splits)
  from at obtain xs t ys where w: "workers s = xs @ (Waiting, t) # ys"
    "setPc k Holding (workers s) = xs @ (Holding, t) # ys"
    by (rule atPc_split)
  from scanInv_closed_workers [OF i w(1)] have "\<not> isClosed s" by simp
  with i show ?thesis
    unfolding scanInv_def s' w(2) by (simp add: w(1) slotHeld_def hasSent_def)
next
  case (Handoff k j)
  define ws1 where "ws1 = setPc k Holding (workers s)"
  from Handoff f have at: "atPc s k Waiting" "atPc s j Sent"
    and s': "s' = s\<lparr>workers := setPc j Done ws1\<rparr>"
    by (auto simp: ws1_def split: if_splits)
  from at(1) obtain xs t ys where w: "workers s = xs @ (Waiting, t) # ys"
    "ws1 = xs @ (Holding, t) # ys"
    unfolding ws1_def by (rule atPc_split)
  from at have "k \<noteq> j" by (auto simp: atPc_def)
  with at(2) have "atPc (s\<lparr>workers := ws1\<rparr>) j Sent"
    by (simp add: atPc_def setPc_def ws1_def)
  then obtain xs' t' ys' where w': "ws1 = xs' @ (Sent, t') # ys'"
    "setPc j Done ws1 = xs' @ (Done, t') # ys'"
    by (rule atPc_split [where c' = Done]) auto
  from scanInv_closed_workers [OF i w(1)] have nc: "\<not> isClosed s" by simp
  have a: "map snd (setPc j Done ws1) = map snd (workers s)"
  proof -
    have "map snd (setPc j Done ws1) = map snd ws1" unfolding w'(2) by (simp add: w'(1))
    also have "\<dots> = map snd (workers s)" by (simp add: w)
    finally show ?thesis .
  qed
  have b: "length (filter slotHeld (setPc j Done ws1)) = length (filter slotHeld (workers s))"
  proof -
    have "Suc (length (filter slotHeld (setPc j Done ws1))) = length (filter slotHeld ws1)"
      unfolding w'(2) by (simp add: w'(1) slotHeld_def)
    also have "\<dots> = Suc (length (filter slotHeld (workers s)))"
      by (simp add: w slotHeld_def)
    finally show ?thesis by simp
  qed
  have c: "mset (map (\<lambda>w. worker cfg (snd w)) (filter hasSent (setPc j Done ws1))) =
      mset (map (\<lambda>w. worker cfg (snd w)) (filter hasSent (workers s)))"
  proof -
    have "mset (map (\<lambda>w. worker cfg (snd w)) (filter hasSent (setPc j Done ws1))) =
        mset (map (\<lambda>w. worker cfg (snd w)) (filter hasSent ws1))"
      unfolding w'(2) by (simp add: w'(1) hasSent_def)
    also have "\<dots> = mset (map (\<lambda>w. worker cfg (snd w)) (filter hasSent (workers s)))"
      by (simp add: w hasSent_def)
    finally show ?thesis .
  qed
  from i nc a b c show ?thesis unfolding scanInv_def s' by simp
next
  case (Send k)
  with f have at: "atPc s k Holding"
    and s': "s' = s\<lparr>workers := setPc k Sent (workers s),
             results := results s @ [worker cfg (snd (workers s ! k))]\<rparr>"
    by (auto split: if_splits)
  from at obtain xs t ys where w: "workers s = xs @ (Holding, t) # ys"
    "setPc k Sent (workers s) = xs @ (Sent, t) # ys" "snd (workers s ! k) = t"
    by (rule atPc_split)
  from scanInv_closed_workers [OF i w(1)] have "\<not> isClosed s" by simp
  with i show ?thesis
    unfolding scanInv_def s' w(2,3) by (simp add: w(1) slotHeld_def hasSent_def)
next
  case (Release k)
  with f have at: "atPc s k Sent"
    and s': "s' = s\<lparr>workers := setPc k Done (workers s), semaphore := semaphore s - 1\<rparr>"
    by (auto split: if_splits)
  from at obtain xs t ys where w: "workers s = xs @ (Sent, t) # ys"
    "setPc k Done (workers s) = xs @ (Done, t) # ys"
    by (rule atPc_split)
  from scanInv_closed_workers [OF i w(1)] have "\<not> isClosed s" by simp
  with i show ?thesis
    unfolding scanInv_def s' w(2) by (simp add: w(1) slotHeld_def hasSent_def)
next
  case Close
  with f have "todo s = []" "list_all (\<lambda>w. fst w = Done) (workers s)" "s' = s\<lparr>isClosed := True\<rparr>"
    by (auto split: if_splits)
  with i show ?thesis unfolding scanInv_def by simp
next
  case Receive
  with f obtain r rest where "results s = r # rest"
    "s' = s\<lparr>results := rest, delivered := delivered s @ [r]\<rparr>"
    by (auto split: if_splits list.splits)
  with i show ?thesis unfolding scanInv_def by simp
qed

lemma run_scanInv:
  "scanInv cfg urls s \<Longrightarrow> run cfg sched s = Some s' \<Longrightarrow> scanInv cfg urls s'"
proof (induction sched arbitrary: s)
  case Nil
  then show ?case by simp
next
  case (Cons a sched)
  then obtain s1 where f: "fire cfg a s = Some s1" and r: "run cfg sched s1 = Some s'"
    by (auto split: option.splits)
  from Cons.IH [OF fire_scanInv [OF Cons.prems(1) f] r] show ?case .
qed

lemma startScan_Inr:
  assumes "startScan cl ck n urls pls = Inr (cfg, s0)"
  shows "scanInv cfg urls s0" and "payloads cfg = pls" and "http cfg = cl" and "cookie cfg = ck"
    and "resultsCap cfg = length urls * length pls" and "semaphoreCap cfg = nat n"
    and "potential cfg s0 = (4 * length pls + 1) * length urls + 1"
    and "0 \<le> n"
  using assms by (auto simp: startScan_def scanInv_def potential_def split: if_splits)


lemma worker_index:
  assumes "w \<in> set (workers s)"
  obtains k where "atPc s k (fst w)"
  using assms by (auto simp: in_set_conv_nth atPc_def)

lemma nothing_enabledD:
  "\<forall>a. fire cfg a s = None \<Longrightarrow> fire cfg b s \<noteq> None \<Longrightarrow> False"
  by simp

lemma quiescent_finished:
  assumes i: "scanInv cfg urls s"
    and cap: "0 < semaphoreCap cfg"
    and rcap: "length (spawned cfg urls) \<le> resultsCap cfg"
    and q: "\<forall>a. fire cfg a s = None"
  shows "finished s \<and> mset (delivered s) = mset (map (worker cfg) (spawned cfg urls))"
proof -
  have todo: "todo s = []"
  proof (rule ccontr)
    assume "todo s \<noteq> []"
    then have "fire cfg NextURL s \<noteq> None"
      by (auto split: list.splits sum.splits)
    with q show False by (rule nothing_enabledD)
  qed
  with i have ws: "map snd (workers s) = spawned cfg urls"
    by (auto simp: scanInv_def)
  from i have sem: "semaphore s = length (filter slotHeld (workers s))"
    and res: "mset (results s) + mset (delivered s) =
        mset (map (\<lambda>w. worker cfg (snd w)) (filter hasSent (workers s)))"
    by (auto simp: scanInv_def)
  have noSent: "fst w \<noteq> Sent" if w: "w \<in> set (workers s)" for w
  proof
    assume c: "fst w = Sent"
    from w obtain k where k: "atPc s k (fst w)" by (rule worker_index)
    from w c have "filter slotHeld (workers s) \<noteq> []"
      by (auto simp: filter_empty_conv slotHeld_def)
    then have "0 < semaphore s" by (simp add: sem)
    with k c have "fire cfg (Release k) s \<noteq> None" by simp
    with q show False by (rule nothing_enabledD)
  qed
  have noHolding: "fst w \<noteq> Holding" if w: "w \<in> set (workers s)" for w
  proof
    assume c: "fst w = Holding"
    from w obtain k where k: "atPc s k (fst w)" by (rule worker_index)
    have "length (results s) \<le> size (mset (results s) + mset (delivered s))"
      by simp
    also have "\<dots> = length (filter hasSent (workers s))"
      by (simp only: res size_mset length_map)
    also have "\<dots> < length (workers s)"
      using w c by (intro length_filter_less [of w]) (auto simp: hasSent_def)
    also have "\<dots> = length (spawned cfg urls)"
      using ws by (metis length_map)
    finally have "length (results s) < resultsCap cfg"
      using rcap by simp
    with k c have "fire cfg (Send k) s \<noteq> None" by simp
    with q show False by (rule nothing_enabledD)
  qed
  have noWaiting: "fst w \<noteq> Waiting" if w: "w \<in> set (workers s)" for w
  proof
    assume c: "fst w = Waiting"
    from w obtain k where k: "atPc s k (fst w)" by (rule worker_index)
    have "filter slotHeld (workers s) = []"
      using noSent noHolding by (auto simp: filter_empty_conv slotHeld_def)
    then have "semaphore s < semaphoreCap cfg"
      using cap by (simp add: sem)
    with k c have "fire cfg (Acquire k) s \<noteq> None" by simp
    with q show False by (rule nothing_enabledD)
  qed
  have allDone: "fst w = Done" if w: "w \<in> set (workers s)" for w
    using noSent [OF w] noHolding [OF w] noWaiting [OF w] by (cases "fst w") auto
  have isClosed: "isClosed s"
  proof (rule ccontr)
    assume "\<not> isClosed s"
    with todo allDone have "fire cfg Close s \<noteq> None"
      by (simp add: list_all_iff)
    with q show False by (rule nothing_enabledD)
  qed
  have empty: "results s = []"
  proof (rule ccontr)
    assume "results s \<noteq> []"
    with todo have "fire cfg Receive s \<noteq> None"
      by (auto split: list.splits)
    with q show False by (rule nothing_enabledD)
  qed
  have "filter hasSent (workers s) = workers s"
    using allDone by (auto simp: filter_id_conv hasSent_def)
  with res empty have "mset (delivered s) = mset (map (\<lambda>w. worker cfg (snd w)) (workers s))"
    by simp
  also have "\<dots> = mset (map (worker cfg) (map snd (workers s)))"
    by (simp add: comp_def)
  finally have "mset (delivered s) = mset (map (worker cfg) (spawned cfg urls))"
    by (simp only: ws)
  with todo isClosed empty show ?thesis by (simp add: finished_def)
qed

lemma emitted_subset:
  assumes i: "scanInv cfg urls s"
  shows "mset (results s) + mset (delivered s) \<subseteq># mset (map (worker cfg) (spawned cfg urls))"
proof -
  from i obtain visited where v: "urls = visited @ todo s"
    "map snd (workers s) = spawned cfg visited"
    and res: "mset (results s) + mset (delivered s) =
        mset (map (\<lambda>w. worker cfg (snd w)) (filter hasSent (workers s)))"
    by (auto simp: scanInv_def)
  have "mset (map (\<lambda>w. worker cfg (snd w)) (filter hasSent (workers s)))
      \<subseteq># mset (map (\<lambda>w. worker cfg (snd w)) (workers s))"
    by (simp add: image_mset_subseteq_mono)
  also have "\<dots> = mset (map (worker cfg) (map snd (workers s)))"
    by (simp add: comp_def)
  also have "\<dots> = mset (map (worker cfg) (spawned cfg visited))"
    by (simp only: v)
  also have "\<dots> \<subseteq># mset (map (worker cfg) (spawned cfg urls))"
    by (simp add: v(1) spawned_append)
  finally show ?thesis by (simp only: res)
qed

text \<open>
  The loop over \<open>results\<close> ends only behind the barrier: the channel is closed after every
  goroutine has returned, so a finished scan has received every result.
\<close>

lemma finished_all_delivered:
  assumes i: "scanInv cfg urls s" and f: "finished s"
  shows "mset (delivered s) = mset (map (worker cfg) (spawned cfg urls))"
proof -
  from f have todo: "todo s = []" and cl: "isClosed s" and empty: "results s = []"
    by (simp_all add: finished_def)
  from i todo have ws: "map snd (workers s) = spawned cfg urls"
    by (auto simp: scanInv_def)
  from i cl have allDone: "list_all (\<lambda>w. fst w = Done) (workers s)"
    by (simp add: scanInv_def)
  from i have res: "mset (results s) + mset (delivered s) =
      mset (map (\<lambda>w. worker cfg (snd w)) (filter hasSent (workers s)))"
    by (simp add: scanInv_def)
  have "filter hasSent (workers s) = workers s"
    using allDone by (auto simp: filter_id_conv hasSent_def list_all_iff)
  with res empty have "mset (delivered s) = mset (map (\<lambda>w. worker cfg (snd w)) (workers s))"
    by simp
  also have "\<dots> = mset (map (worker cfg) (map snd (workers s)))"
    by (simp add: comp_def)
  finally show ?thesis by (simp only: ws)
qed

text \<open>From every state some sequence of actions leads to a state where nothing can run.\<close>

lemma run_append:
  "run cfg (xs @ ys) s = (case run cfg xs s of None \<Rightarrow> None | Some s' \<Rightarrow> run cfg ys s')"
  by (induction xs arbitrary: s) (auto split: option.splits)

lemma runs_to_quiescence:
  "\<exists>sched s'. run cfg sched s = Some s' \<and> (\<forall>a. fire cfg a s' = None)"
proof (induction "potential cfg s" arbitrary: s rule: less_induct)
  case less
  show ?case
  proof (cases "\<forall>a. fire cfg a s = None")
    case True
    then have "run cfg [] s = Some s \<and> (\<forall>a. fire cfg a s = None)" by simp
    then show ?thesis by blast
  next
    case False
    then obtain a s1 where f: "fire cfg a s = Some s1" by auto
    from less [OF fire_potential [OF f]] obtain sched s'
      where "run cfg sched s1 = Some s'" "\<forall>a. fire cfg a s' = None" by blast
    with f have "run cfg (a # sched) s = Some s' \<and> (\<forall>a. fire cfg a s' = None)" by simp
    then show ?thesis by blast
  qed
qed

subsection \<open>The scan of two targets, evaluated\<close>

lemma demo_baselines:
  "getBaseline partialClient ''http://down/'' [] requestTimeout =
     Inl ''baseline request failed: connection refused''"
  "getBaseline partialClient ''http://up/?id='' [] requestTimeout = Inr (Finite 1, 15)"
  by (simp_all add: getBaseline_def performRequest_def partialClient_def emptyResult_def
      int_len_def)

lemma demo_startScan:
  "startScan partialClient [] 2 demoUrls [''1%27''] = Inr (demoConfig 2 2, demoStart)"
  "startScan partialClient [] 0 demoUrls [''1%27''] = Inr (demoConfig 0 5, demoStart)"
  by (simp_all add: startScan_def demoConfig_def demoStart_def demoUrls_def)

lemma demo_run: "run (demoConfig 2 2) demoSchedule demoStart = Some demoFinal"
  by (simp add: demoSchedule_def demoStart_def demoFinal_def demoUrls_def demoConfig_def
      demo_baselines atPc_def setPc_def demoTask_def)

lemma demo_run_blocked: "run (demoConfig 0 5) [NextURL, NextURL] demoStart = Some demoBlocked"
  by (simp add: demoStart_def demoBlocked_def demoUrls_def demoConfig_def
      demo_baselines demoTask_def)

lemma demo_final_quiescent: "\<forall>a. fire (demoConfig 2 2) a demoFinal = None"
proof
  fix a
  show "fire (demoConfig 2 2) a demoFinal = None"
    by (cases a) (auto simp: demoFinal_def atPc_def nth_Cons')
qed

lemma demo_blocked_quiescent: "\<forall>a. fire (demoConfig 0 5) a demoBlocked = None"
proof
  fix a
  show "fire (demoConfig 0 5) a demoBlocked = None"
    by (cases a) (auto simp: demoBlocked_def demoConfig_def atPc_def nth_Cons')
qed


lemma fire_blocked:
  assumes cap: "semaphoreCap cfg = 0"
    and f: "fire cfg a s = Some s'"
    and b: "list_all (\<lambda>w. fst w = Waiting) (workers s) \<and> results s = [] \<and> delivered s = []"
  shows "list_all (\<lambda>w. fst w = Waiting) (workers s') \<and> results s' = [] \<and> delivered s' = []"
proof -
  from b have w: "\<not> atPc s k Holding" "\<not> atPc s k Sent" for k
    by (auto simp: atPc_def list_all_length)
  show ?thesis
  proof (cases a)
    case NextURL
    with f b show ?thesis by (auto simp: list_all_iff split: list.splits sum.splits)
  next
    case (Acquire k)
    with f cap show ?thesis by simp
  next
    case (Handoff k j)
    with f w show ?thesis by simp
  next
    case (Send k)
    with f w show ?thesis by simp
  next
    case (Release k)
    with f w show ?thesis by simp
  next
    case Close
    with f b show ?thesis by (auto split: if_splits)
  next
    case Receive
    with f b show ?thesis by (auto split: if_splits)
  qed
qed

lemma run_blocked:
  assumes "semaphoreCap cfg = 0"
  shows "run cfg sched s = Some s' \<Longrightarrow>
         list_all (\<lambda>w. fst w = Waiting) (workers s) \<and> results s = [] \<and> delivered s = [] \<Longrightarrow>
         list_all (\<lambda>w. fst w = Waiting) (workers s') \<and> results s' = [] \<and> delivered s' = []"
proof (induction sched arbitrary: s)
  case Nil
  then show ?case by simp
next
  case (Cons a sched)
  then obtain s1 where f: "fire cfg a s = Some s1" and r: "run cfg sched s1 = Some s'"
    by (auto split: option.splits)
  from Cons.IH [OF r fire_blocked [OF assms f Cons.prems(2)]] show ?case .
qed

lemma blocked_not_finished:
  assumes i: "scanInv cfg urls s"
    and b: "list_all (\<lambda>w. fst w = Waiting) (workers s)"
    and n: "spawned cfg urls \<noteq> []"
  shows "\<not> finished s"
proof
  assume "finished s"
  then have t: "todo s = []" and c: "isClosed s" by (simp_all add: finished_def)
  from i t have "map snd (workers s) = spawned cfg urls" by (auto simp: scanInv_def)
  with n obtain w ws where w: "workers s = w # ws" by (cases "workers s") auto
  from i c have "list_all (\<lambda>w. fst w = Done) (workers s)" by (simp add: scanInv_def)
  with b w show False by simp
qed

section \<open>The claims on the dispatcher\<close>

text \<open>
  Claim C1.  A limit outside 1 to 20 is not replaced by 5 where it matters: the semaphore
  is made before \<open>*threads\<close> is reset.  With the limit 50 the semaphore has 50 slots; with
  \<open>- 1\<close> making the channel panics; with 0 the semaphore has no buffer, no goroutine ever
  gets past its send on it, no result is delivered, and a scan that started a goroutine
  never leaves the loop over \<open>results\<close>.
\<close>

theorem out_of_range_limit_not_defaulted:
  "startScan cl ck 50 urls pls =
     Inr (\<lparr>http = cl, cookie = ck, payloads = pls, resultsCap = length urls * length pls,
            semaphoreCap = 50, threads = 5\<rparr>,
          \<lparr>todo = urls, workers = [], semaphore = 0, results = [], isClosed = False,
            delivered = []\<rparr>) \<and>
   startScan cl ck (- 1) urls pls = Inl MakechanSizeOutOfRange \<and>
   (\<exists>cfg s0. startScan cl ck 0 urls pls = Inr (cfg, s0) \<and> semaphoreCap cfg = 0 \<and>
      threads cfg = 5 \<and>
      (\<forall>sched s. run cfg sched s0 = Some s \<longrightarrow>
         delivered s = [] \<and> (spawned cfg urls \<noteq> [] \<longrightarrow> \<not> finished s)))"
proof (intro conjI)
  show "startScan cl ck 50 urls pls =
     Inr (\<lparr>http = cl, cookie = ck, payloads = pls, resultsCap = length urls * length pls,
            semaphoreCap = 50, threads = 5\<rparr>,
          \<lparr>todo = urls, workers = [], semaphore = 0, results = [], isClosed = False,
            delivered = []\<rparr>)"
    by (simp add: startScan_def)
  show "startScan cl ck (- 1) urls pls = Inl MakechanSizeOutOfRange"
    by (simp add: startScan_def)
  obtain cfg s0 where st: "startScan cl ck 0 urls pls = Inr (cfg, s0)"
    by (simp add: startScan_def)
  then have cap: "semaphoreCap cfg = 0" and th: "threads cfg = 5"
    and s0: "list_all (\<lambda>w. fst w = Waiting) (workers s0) \<and> results s0 = [] \<and> delivered s0 = []"
    by (auto simp: startScan_def)
  have "delivered s = [] \<and> (spawned cfg urls \<noteq> [] \<longrightarrow> \<not> finished s)"
    if r: "run cfg sched s0 = Some s" for sched s
  proof -
    from run_blocked [OF cap r s0]
    have b: "list_all (\<lambda>w. fst w = Waiting) (workers s)" and d: "delivered s = []"
      by simp_all
    from run_scanInv [OF startScan_Inr(1) [OF st] r] have "scanInv cfg urls s" .
    with b d show ?thesis by (auto dest: blocked_not_finished)
  qed
  with st cap th
  show "\<exists>cfg s0. startScan cl ck 0 urls pls = Inr (cfg, s0) \<and> semaphoreCap cfg = 0 \<and>
      threads cfg = 5 \<and>
      (\<forall>sched s. run cfg sched s0 = Some s \<longrightarrow>
         delivered s = [] \<and> (spawned cfg urls \<noteq> [] \<longrightarrow> \<not> finished s))"
    by blast
qed

theorem out_of_range_limit_not_defaulted_witness:
  "startScan partialClient [] 0 demoUrls [''1%27''] = Inr (demoConfig 0 5, demoStart) \<and>
   run (demoConfig 0 5) [NextURL, NextURL] demoStart = Some demoBlocked \<and>
   (\<forall>a. fire (demoConfig 0 5) a demoBlocked = None) \<and>
   spawned (demoConfig 0 5) demoUrls \<noteq> [] \<and>
   delivered demoBlocked = [] \<and> \<not> finished demoBlocked"
proof -
  have n: "spawned (demoConfig 0 5) demoUrls \<noteq> []"
    by (simp add: demoUrls_def demoConfig_def demo_baselines)
  from out_of_range_limit_not_defaulted [of partialClient "[]" demoUrls "[''1%27'']"]
  obtain cfg s0 where st: "startScan partialClient [] 0 demoUrls [''1%27''] = Inr (cfg, s0)"
    and all: "\<forall>sched s. run cfg sched s0 = Some s \<longrightarrow>
         delivered s = [] \<and> (spawned cfg demoUrls \<noteq> [] \<longrightarrow> \<not> finished s)"
    by blast
  from st have eq: "cfg = demoConfig 0 5" "s0 = demoStart"
    by (simp_all only: demo_startScan(2) sum.inject prod.inject)
  from all have "run (demoConfig 0 5) [NextURL, NextURL] demoStart = Some demoBlocked \<longrightarrow>
      delivered demoBlocked = [] \<and>
      (spawned (demoConfig 0 5) demoUrls \<noteq> [] \<longrightarrow> \<not> finished demoBlocked)"
    unfolding eq by blast
  with demo_run_blocked n
  have "delivered demoBlocked = [] \<and> \<not> finished demoBlocked"
    by blast
  with demo_startScan(2) demo_run_blocked demo_blocked_quiescent n show ?thesis by blast
qed

text \<open>
  Claim C4.  With a limit from 1 to 20 the scan starts, and however the goroutines are
  interleaved: a schedule has at most \<open>(4 * |payloads| + 1) * |urls| + 1\<close> actions; the
  results sent never outnumber the targets with a successful baseline times the payloads;
  whenever the loop over \<open>results\<close> has ended it has received exactly that many results;
  when no action can run any more the loop has ended; and every schedule can be continued
  to such an end.  The number does not depend on the limit.
\<close>

theorem result_count:
  assumes n: "1 \<le> n" "n \<le> 20"
  shows "\<exists>cfg s0. startScan cl ck n urls pls = Inr (cfg, s0) \<and>
           (\<forall>sched s. run cfg sched s0 = Some s \<longrightarrow>
              length sched \<le> (4 * length pls + 1) * length urls + 1 \<and>
              length (results s) + length (delivered s) \<le>
                length (filter (baselineOk cl ck) urls) * length pls \<and>
              (finished s \<longrightarrow>
                 length (delivered s) = length (filter (baselineOk cl ck) urls) * length pls) \<and>
              ((\<forall>a. fire cfg a s = None) \<longrightarrow>
                 finished s \<and>
                 length (delivered s) = length (filter (baselineOk cl ck) urls) * length pls) \<and>
              (\<exists>sched' s'. run cfg (sched @ sched') s0 = Some s' \<and> finished s' \<and>
                 length (delivered s') = length (filter (baselineOk cl ck) urls) * length pls))"
proof -
  let ?N = "length (filter (baselineOk cl ck) urls) * length pls"
  from n obtain cfg s0 where st: "startScan cl ck n urls pls = Inr (cfg, s0)"
    by (simp add: startScan_def)
  note start = startScan_Inr [OF st]
  have N: "length (spawned cfg urls) = ?N"
    by (simp add: length_spawned start)
  have cap: "0 < semaphoreCap cfg" using n by (simp add: start)
  have rcap: "length (spawned cfg urls) \<le> resultsCap cfg"
    using length_spawned_le [of cfg urls] by (simp add: start)
  have fin: "finished t \<and> length (delivered t) = ?N"
    if "scanInv cfg urls t" "\<forall>a. fire cfg a t = None" for t
  proof -
    from quiescent_finished [OF that(1) cap rcap that(2)]
    have "finished t" and "mset (delivered t) = mset (map (worker cfg) (spawned cfg urls))"
      by simp_all
    then show ?thesis using N by (metis length_map size_mset)
  qed
  have cnt: "length (delivered t) = ?N" if "scanInv cfg urls t" "finished t" for t
  proof -
    from finished_all_delivered [OF that]
    have "mset (delivered t) = mset (map (worker cfg) (spawned cfg urls))" .
    then show ?thesis using N by (metis length_map size_mset)
  qed
  have "length sched \<le> (4 * length pls + 1) * length urls + 1 \<and>
      length (results s) + length (delivered s) \<le> ?N \<and>
      (finished s \<longrightarrow> length (delivered s) = ?N) \<and>
      ((\<forall>a. fire cfg a s = None) \<longrightarrow> finished s \<and> length (delivered s) = ?N) \<and>
      (\<exists>sched' s'. run cfg (sched @ sched') s0 = Some s' \<and> finished s' \<and>
         length (delivered s') = ?N)"
    if r: "run cfg sched s0 = Some s" for sched s
  proof -
    have i: "scanInv cfg urls s" by (rule run_scanInv [OF start(1) r])
    have a: "length sched \<le> (4 * length pls + 1) * length urls + 1"
      using run_potential [OF r] by (simp add: start)
    have "size (mset (results s) + mset (delivered s)) \<le>
        size (mset (map (worker cfg) (spawned cfg urls)))"
      by (rule size_mset_mono [OF emitted_subset [OF i]])
    then have b: "length (results s) + length (delivered s) \<le> ?N"
      by (simp add: N)
    from runs_to_quiescence [of cfg s] obtain sched' s'
      where r': "run cfg sched' s = Some s'" and q': "\<forall>a. fire cfg a s' = None" by blast
    from r r' have "run cfg (sched @ sched') s0 = Some s'" by (simp add: run_append)
    moreover from run_scanInv [OF i r'] q' have "finished s' \<and> length (delivered s') = ?N"
      by (rule fin)
    ultimately have d: "\<exists>sched' s'. run cfg (sched @ sched') s0 = Some s' \<and> finished s' \<and>
        length (delivered s') = ?N" by blast
    from a b cnt [OF i] fin [OF i] d show ?thesis by blast
  qed
  with st show ?thesis by blast
qed

theorem result_count_witness:
  "(1::int) \<le> 2 \<and> (2::int) \<le> 20 \<and>
   startScan partialClient [] 2 demoUrls [''1%27''] = Inr (demoConfig 2 2, demoStart) \<and>
   run (demoConfig 2 2) demoSchedule demoStart = Some demoFinal \<and>
   (\<forall>a. fire (demoConfig 2 2) a demoFinal = None) \<and>
   length (filter (baselineOk partialClient []) demoUrls) * length [''1%27''] = 1 \<and>
   finished demoFinal \<and> length (delivered demoFinal) = 1"
proof -
  have h: "(1::int) \<le> 2" "(2::int) \<le> 20" by simp_all
  have c: "length (filter (baselineOk partialClient []) demoUrls) * length [''1%27''] = 1"
    by (simp add: baselineOk_def demoUrls_def demo_baselines)
  from result_count [OF h, of partialClient "[]" demoUrls "[''1%27'']"]
  obtain cfg s0 where st: "startScan partialClient [] 2 demoUrls [''1%27''] = Inr (cfg, s0)"
    and quiet: "\<forall>sched s. run cfg sched s0 = Some s \<longrightarrow>
      ((\<forall>a. fire cfg a s = None) \<longrightarrow> finished s)"
    and fin: "\<forall>sched s. run cfg sched s0 = Some s \<longrightarrow>
      (finished s \<longrightarrow>
         length (delivered s) =
           length (filter (baselineOk partialClient []) demoUrls) * length [''1%27''])"
    by blast
  from st have eq: "cfg = demoConfig 2 2" "s0 = demoStart"
    by (simp_all only: demo_startScan(1) sum.inject prod.inject)
  from quiet have "run (demoConfig 2 2) demoSchedule demoStart = Some demoFinal \<longrightarrow>
      ((\<forall>a. fire (demoConfig 2 2) a demoFinal = None) \<longrightarrow> finished demoFinal)"
    unfolding eq by blast
  with demo_run demo_final_quiescent have f: "finished demoFinal"
    by blast
  from fin have "run (demoConfig 2 2) demoSchedule demoStart = Some demoFinal \<longrightarrow>
      (finished demoFinal \<longrightarrow>
         length (delivered demoFinal) =
           length (filter (baselineOk partialClient []) demoUrls) * length [''1%27''])"
    unfolding eq by blast
  with demo_run f
  have "length (delivered demoFinal) =
      length (filter (baselineOk partialClient []) demoUrls) * length [''1%27'']"
    by blast
  with h c f demo_startScan(1) demo_run demo_final_quiescent show ?thesis by simp
qed

text \<open>
  Claim C8.  When the baseline request of a target \<open>u\<close> fails, no goroutine is started for
  \<open>u\<close>, every result sent is the result of a goroutine of another target, the loop over
  \<open>urls\<close> goes on with the target after \<open>u\<close>, and (with a limit of at least 1) the scan
  ends having delivered the results of all the other targets' goroutines.
\<close>

theorem failed_baseline_skips_target:
  assumes bl: "getBaseline cl u ck requestTimeout = Inl err"
    and st: "startScan cl ck n (us1 @ u # us2) pls = Inr (cfg, s0)"
    and r: "run cfg sched s0 = Some s"
  shows "spawned cfg (us1 @ u # us2) = spawned cfg (us1 @ us2) \<and>
         (\<forall>w \<in> set (workers s). fst (snd w) \<noteq> u) \<and>
         mset (results s) + mset (delivered s) \<subseteq>#
           mset (map (worker cfg) (spawned cfg (us1 @ us2))) \<and>
         (todo s = u # rest \<longrightarrow> fire cfg NextURL s = Some (s\<lparr>todo := rest\<rparr>)) \<and>
         (0 < n \<and> (\<forall>a. fire cfg a s = None) \<longrightarrow>
            finished s \<and>
            mset (delivered s) = mset (map (worker cfg) (spawned cfg (us1 @ us2))))"
proof -
  note start = startScan_Inr [OF st]
  from bl have bl': "getBaseline (http cfg) u (cookie cfg) requestTimeout = Inl err"
    by (simp add: start)
  have a: "spawned cfg (us1 @ u # us2) = spawned cfg (us1 @ us2)"
    by (simp add: spawned_append bl')
  have i: "scanInv cfg (us1 @ u # us2) s" by (rule run_scanInv [OF start(1) r])
  have nou: "fst t \<noteq> u" if "t \<in> set (spawned cfg urls)" for t urls
    using that bl' by (induction urls) (auto split: sum.splits)
  have b: "\<forall>w \<in> set (workers s). fst (snd w) \<noteq> u"
  proof
    fix w assume w: "w \<in> set (workers s)"
    from i obtain visited where "map snd (workers s) = spawned cfg visited"
      by (auto simp: scanInv_def)
    with w have "snd w \<in> set (spawned cfg visited)" by (metis image_eqI set_map)
    then show "fst (snd w) \<noteq> u" by (rule nou)
  qed
  have c: "mset (results s) + mset (delivered s) \<subseteq>#
      mset (map (worker cfg) (spawned cfg (us1 @ us2)))"
    using emitted_subset [OF i] by (simp only: a)
  have d: "todo s = u # rest \<longrightarrow> fire cfg NextURL s = Some (s\<lparr>todo := rest\<rparr>)"
    by (simp add: bl')
  have e: "finished s \<and> mset (delivered s) = mset (map (worker cfg) (spawned cfg (us1 @ us2)))"
    if "0 < n" "\<forall>a. fire cfg a s = None"
  proof -
    have cap: "0 < semaphoreCap cfg" using that(1) by (simp add: start)
    have rcap: "length (spawned cfg (us1 @ u # us2)) \<le> resultsCap cfg"
      using length_spawned_le [of cfg "us1 @ u # us2"] by (simp add: start)
    from quiescent_finished [OF i cap rcap that(2)] show ?thesis by (simp only: a)
  qed
  from a b c d e show ?thesis by blast
qed

theorem failed_baseline_skips_target_witness:
  "getBaseline partialClient ''http://down/'' [] requestTimeout =
     Inl ''baseline request failed: connection refused'' \<and>
   startScan partialClient [] 2 ([] @ ''http://down/'' # [''http://up/?id='']) [''1%27''] =
     Inr (demoConfig 2 2, demoStart) \<and>
   run (demoConfig 2 2) demoSchedule demoStart = Some demoFinal \<and>
   (\<forall>a. fire (demoConfig 2 2) a demoFinal = None) \<and>
   workers demoFinal = [(Done, demoTask)] \<and>
   fst (snd (Done, demoTask)) \<noteq> ''http://down/'' \<and>
   fire (demoConfig 2 2) NextURL demoStart = Some (demoStart\<lparr>todo := [''http://up/?id='']\<rparr>) \<and>
   mset (delivered demoFinal) = {#worker (demoConfig 2 2) demoTask#}"
proof -
  have st: "startScan partialClient [] 2 ([] @ ''http://down/'' # [''http://up/?id=''])
      [''1%27''] = Inr (demoConfig 2 2, demoStart)"
    using demo_startScan(1) by (simp add: demoUrls_def)
  have t: "todo demoStart = ''http://down/'' # [''http://up/?id='']"
    by (simp add: demoStart_def demoUrls_def)
  have w: "workers demoFinal = [(Done, demoTask)]"
    "mset (delivered demoFinal) = {#worker (demoConfig 2 2) demoTask#}"
    by (simp_all add: demoFinal_def)
  have r0: "run (demoConfig 2 2) [] demoStart = Some demoStart" by simp
  from failed_baseline_skips_target [OF demo_baselines(1) st r0, of "[''http://up/?id='']"] t
  have f: "fire (demoConfig 2 2) NextURL demoStart = Some (demoStart\<lparr>todo := [''http://up/?id='']\<rparr>)"
    by blast
  from failed_baseline_skips_target [OF demo_baselines(1) st demo_run]
  have "\<forall>w \<in> set (workers demoFinal). fst (snd w) \<noteq> ''http://down/''"
    by blast
  then have "fst (snd (Done, demoTask)) \<noteq> ''http://down/''"
    by (simp add: w(1))
  with demo_baselines(1) st demo_run demo_final_quiescent w f show ?thesis by simp
qed

end
